theory Spec2Isabelle
  imports Main "HOL-Library.Multiset"
begin

section \<open>The secure password generator\<close>

text \<open>
  A shallow embedding of the class \<^verbatim>\<open>SecurePasswordGenerator\<close> of
  \<^verbatim>\<open>password_generator.py\<close>: its four alphabets, \<^verbatim>\<open>generate_password\<close>,
  \<^verbatim>\<open>_has_predictable_patterns\<close> and \<^verbatim>\<open>generate_multiple_passwords\<close>.

  Strings are \<^typ>\<open>string\<close>, a list of characters with codes below 256; every symbol
  the generator owns is ASCII. Python's \<^verbatim>\<open>ord\<close> is \<^term>\<open>of_char\<close> into the naturals.
\<close>

subsection \<open>The random source\<close>

text \<open>
  The code draws from the operating system's generator through \<^verbatim>\<open>secrets.choice\<close>
  and \<^verbatim>\<open>secrets.SystemRandom().shuffle\<close>. The model makes the draws explicit: a
  source is an infinite sequence of naturals, and the state threaded through the code is
  the position of the next unread draw. A draw below \<open>n\<close> is the next natural reduced
  modulo \<open>n\<close>, so each value below \<open>n\<close> is a possible outcome, and nothing else is.
\<close>

type_synonym entropy = "nat \<Rightarrow> nat"

definition randbelow :: "entropy \<Rightarrow> nat \<Rightarrow> nat \<Rightarrow> nat \<times> nat" where
  "randbelow src p n = (src p mod n, Suc p)"

text \<open>
  \<^verbatim>\<open>secrets.choice(seq)\<close> is \<^verbatim>\<open>seq[randbelow(len(seq))]\<close>. The code calls it on the four
  constant alphabets and on the pool after the pool was found non-empty, so the
  \<^verbatim>\<open>IndexError\<close> of an empty sequence is never reached (see \<open>alphabets_nonempty\<close>).
\<close>

definition choice :: "entropy \<Rightarrow> nat \<Rightarrow> 'a list \<Rightarrow> 'a \<times> nat" where
  "choice src p seq = (case randbelow src p (length seq) of (k, p') \<Rightarrow> (seq ! k, p'))"

text \<open>
  \<^verbatim>\<open>random.shuffle\<close>, which \<^verbatim>\<open>SystemRandom\<close> inherits:
  \<^verbatim>\<open>
  for i in reversed(range(1, len(x))):
      j = randbelow(i + 1)
      x[i], x[j] = x[j], x[i]
  \<close>
  \<open>shuffle_from src p i x\<close> runs the loop for the indices \<open>i, i - 1, ..., 1\<close>.
\<close>

fun shuffle_from :: "entropy \<Rightarrow> nat \<Rightarrow> nat \<Rightarrow> 'a list \<Rightarrow> 'a list \<times> nat" where
  "shuffle_from src p 0 x = (x, p)"
| "shuffle_from src p (Suc i) x =
     (case randbelow src p (Suc i + 1) of
        (j, p') \<Rightarrow> shuffle_from src p' i (x[Suc i := x ! j, j := x ! Suc i]))"

definition shuffle :: "entropy \<Rightarrow> nat \<Rightarrow> 'a list \<Rightarrow> 'a list \<times> nat" where
  "shuffle src p x = shuffle_from src p (length x - 1) x"

subsection \<open>The character classes\<close>

definition lowercase :: string where
  "lowercase = ''abcdefghijklmnopqrstuvwxyz''"

definition uppercase :: string where
  "uppercase = ''ABCDEFGHIJKLMNOPQRSTUVWXYZ''"

definition digits :: string where
  "digits = ''0123456789''"

definition special_chars :: string where
  "special_chars = ''!@#$%^&*()_+-=[]{}|;:,.<>?''"

subsection \<open>The pattern check\<close>

text \<open>
  The first loop of \<^verbatim>\<open>_has_predictable_patterns\<close>: for \<open>i\<close> in
  \<^verbatim>\<open>range(len(password) - 2)\<close>, three codes in a row that ascend by one. The range
  is empty when the password has fewer than three symbols, as truncated subtraction
  makes it here.
\<close>

definition sequential_chars :: "string \<Rightarrow> bool" where
  "sequential_chars password =
     list_ex (\<lambda>i. (of_char (password ! (i + 1)) :: nat) = of_char (password ! i) + 1 \<and>
                  (of_char (password ! (i + 2)) :: nat) = of_char (password ! i) + 2)
       [0 ..< length password - 2]"

text \<open>
  \<^verbatim>\<open>re.search(r'(.)\1{2,}', password)\<close>: scanning from the left, a symbol that the dot
  matches, followed by at least two more copies of itself. Without the DOTALL flag the
  dot matches every character but the line feed (code 10).
\<close>

definition dot_matches :: "char \<Rightarrow> bool" where
  "dot_matches c = (c \<noteq> CHR 0x0A)"

fun repeated_chars :: "string \<Rightarrow> bool" where
  "repeated_chars (a # b # c # rest) =
     (if dot_matches a \<and> b = a \<and> c = a then True else repeated_chars (b # c # rest))"
| "repeated_chars _ = False"

text \<open>
  \<^verbatim>\<open>str.lower\<close> on the codes below 256: the ASCII capitals and the Latin-1 capitals
  (192 to 222 but the multiplication sign 215) move up by 32, all else stays.
\<close>

definition lower_char :: "char \<Rightarrow> char" where
  "lower_char c =
     (let n = (of_char c :: nat) in
      if (65 \<le> n \<and> n \<le> 90) \<or> (192 \<le> n \<and> n \<le> 222 \<and> n \<noteq> 215)
      then char_of (n + 32) else c)"

definition lower :: "string \<Rightarrow> string" where
  "lower s = map lower_char s"

text \<open>The operator \<^verbatim>\<open>pattern in password_lower\<close>: substring search from the left.\<close>

fun str_in :: "string \<Rightarrow> string \<Rightarrow> bool" where
  "str_in pattern [] = (pattern = [])"
| "str_in pattern (c # cs) = (take (length pattern) (c # cs) = pattern \<or> str_in pattern cs)"

definition common_patterns :: "string list" where
  "common_patterns = [''123'', ''321'', ''abc'', ''cba'', ''qwe'', ''asd'', ''zxc'']"

definition has_predictable_patterns :: "string \<Rightarrow> bool" where
  "has_predictable_patterns password =
     (if sequential_chars password then True
      else if repeated_chars password then True
      else list_ex (\<lambda>pattern. str_in pattern (lower password)) common_patterns)"

subsection \<open>Generating one password\<close>

record params =
  pw_length :: int
  use_uppercase :: bool
  use_lowercase :: bool
  use_digits :: bool
  use_special :: bool

text \<open>
  One of the four \<^verbatim>\<open>if use_...:\<close> blocks: the alphabet joins the pool, and one symbol
  chosen from it joins the required symbols.
\<close>

definition add_class ::
  "entropy \<Rightarrow> bool \<Rightarrow> string \<Rightarrow> string \<times> char list \<times> nat \<Rightarrow> string \<times> char list \<times> nat" where
  "add_class src use alphabet st =
     (case st of (char_pool, required_chars, p) \<Rightarrow>
        if use then
          (case choice src p alphabet of
             (c, p') \<Rightarrow> (char_pool @ alphabet, required_chars @ [c], p'))
        else (char_pool, required_chars, p))"

definition select_classes :: "entropy \<Rightarrow> nat \<Rightarrow> params \<Rightarrow> string \<times> char list \<times> nat" where
  "select_classes src p r =
     add_class src (use_special r) special_chars
       (add_class src (use_digits r) digits
         (add_class src (use_uppercase r) uppercase
           (add_class src (use_lowercase r) lowercase ([], [], p))))"

text \<open>
  The filling loop, \<^verbatim>\<open>for _ in range(length - len(required_chars))\<close>: the number of
  rounds is the first argument; a negative difference gives an empty range.
\<close>

fun fill :: "entropy \<Rightarrow> nat \<Rightarrow> nat \<Rightarrow> string \<Rightarrow> char list \<Rightarrow> char list \<times> nat" where
  "fill src p 0 char_pool password = (password, p)"
| "fill src p (Suc n) char_pool password =
     (case choice src p char_pool of
        (c, p') \<Rightarrow> fill src p' n char_pool (password @ [c]))"


text \<open>
  \<^verbatim>\<open>generate_password\<close>. The result is \<open>Inl e\<close> when the call raises \<open>e\<close> and
  \<open>Inr (pw, p')\<close> when it returns \<open>pw\<close> and the next unread draw is at \<open>p'\<close>.

  The retry is the source's call of itself with the same arguments, nested in the
  rejected attempt's frame, with no counter. What ends a run of rejections is the
  interpreter: \<open>depth\<close> is the number of attempts for which its stack still has room when
  the call is entered (the recursion limit, less the frames in use and those that the
  helper calls of one attempt need). Each rejected attempt uses one up. With none left,
  the first call out of the body, which is the first \<^verbatim>\<open>secrets.choice\<close>, raises
  \<^verbatim>\<open>RecursionError\<close>, and nothing catches it. A body that makes no call, because the
  length is below 4 or because no class is selected and so no symbol is chosen, raises its
  \<^verbatim>\<open>ValueError\<close> all the same; this is why the model can test the depth after the
  test of the pool.
\<close>

datatype error = ValueError string | RecursionError

fun generate_password ::
  "entropy \<Rightarrow> nat \<Rightarrow> nat \<Rightarrow> params \<Rightarrow> error + string \<times> nat" where
  "generate_password src depth p r =
     (if pw_length r < 4 then
        Inl (ValueError ''Password length must be at least 4 characters'')
      else
        case select_classes src p r of (char_pool, required_chars, p1) \<Rightarrow>
          if char_pool = [] then
            Inl (ValueError ''At least one character type must be selected'')
          else
            case depth of
              0 \<Rightarrow> Inl RecursionError
            | Suc depth' \<Rightarrow>
                (case fill src p1 (nat (pw_length r - int (length required_chars)))
                        char_pool required_chars of (password, p2) \<Rightarrow>
                   case shuffle src p2 password of (final_password, p3) \<Rightarrow>
                     if has_predictable_patterns final_password
                     then generate_password src depth' p3 r
                     else Inr (final_password, p3)))"

declare generate_password.simps [simp del]

subsection \<open>Generating a batch\<close>

text \<open>
  The loop of \<^verbatim>\<open>generate_multiple_passwords\<close>: each round calls
  \<^verbatim>\<open>generate_password\<close> where the round before stopped reading, from the same frame
  and so with the same room on the stack, and an exception ends the loop with no list.
\<close>

fun generate_loop ::
  "entropy \<Rightarrow> nat \<Rightarrow> params \<Rightarrow> nat \<Rightarrow> nat \<Rightarrow> string list \<Rightarrow> error + string list \<times> nat" where
  "generate_loop src depth r 0 p passwords = Inr (passwords, p)"
| "generate_loop src depth r (Suc n) p passwords =
     (case generate_password src depth p r of
        Inl e \<Rightarrow> Inl e
      | Inr (pw, p') \<Rightarrow> generate_loop src depth r n p' (passwords @ [pw]))"

definition generate_multiple_passwords ::
  "entropy \<Rightarrow> nat \<Rightarrow> nat \<Rightarrow> int \<Rightarrow> params \<Rightarrow> error + string list \<times> nat" where
  "generate_multiple_passwords src depth p cnt r =
     (if cnt < 1 then Inl (ValueError ''Count must be at least 1'')
      else generate_loop src depth r (nat cnt) p [])"

subsection \<open>Attempts and retries\<close>

text \<open>
  What one pass through the body of \<^verbatim>\<open>generate_password\<close> builds once both
  parameter checks are behind it: the shuffled candidate and the position of the next
  unread draw.
\<close>

definition attempt :: "entropy \<Rightarrow> nat \<Rightarrow> params \<Rightarrow> string \<times> nat" where
  "attempt src p r =
     (case select_classes src p r of (char_pool, required_chars, p1) \<Rightarrow>
        case fill src p1 (nat (pw_length r - int (length required_chars)))
               char_pool required_chars of (password, p2) \<Rightarrow>
          shuffle src p2 password)"

text \<open>
  \<open>retry_pos src r p k\<close> is where the draws stand after \<open>k\<close> passes that started at
  \<open>p\<close>, and \<open>candidate src r p k\<close> is the password the next pass builds there.
\<close>

primrec retry_pos :: "entropy \<Rightarrow> params \<Rightarrow> nat \<Rightarrow> nat \<Rightarrow> nat" where
  "retry_pos src r p 0 = p"
| "retry_pos src r p (Suc k) = retry_pos src r (snd (attempt src p r)) k"

definition candidate :: "entropy \<Rightarrow> params \<Rightarrow> nat \<Rightarrow> nat \<Rightarrow> string" where
  "candidate src r p k = fst (attempt src (retry_pos src r p k) r)"

text \<open>The pool as the flags alone decide it, in the order the code concatenates.\<close>

definition pool_of :: "params \<Rightarrow> string" where
  "pool_of r =
     (if use_lowercase r then lowercase else []) @
     (if use_uppercase r then uppercase else []) @
     (if use_digits r then digits else []) @
     (if use_special r then special_chars else [])"

text \<open>The source that answers every draw with zero.\<close>

definition zero_draws :: entropy where
  "zero_draws = (\<lambda>_. 0)"

section \<open>Properties\<close>

subsection \<open>Draws, shuffling and filling\<close>

lemma alphabets_nonempty:
  "lowercase \<noteq> []" "uppercase \<noteq> []" "digits \<noteq> []" "special_chars \<noteq> []"
  by (simp_all add: lowercase_def uppercase_def digits_def special_chars_def)

lemma choice_mem: "seq \<noteq> [] \<Longrightarrow> fst (choice src p seq) \<in> set seq"
  by (simp add: choice_def randbelow_def)

lemma choice_pos: "snd (choice src p seq) = Suc p"
  by (simp add: choice_def randbelow_def)

lemma shuffle_from_mset: "i < length x \<Longrightarrow> mset (fst (shuffle_from src p i x)) = mset x"
proof (induction i arbitrary: p x)
  case 0
  then show ?case by simp
next
  case (Suc i)
  let ?j = "src p mod (Suc i + 1)"
  let ?x = "x[Suc i := x ! ?j, ?j := x ! Suc i]"
  have "?j < Suc i + 1" by simp
  then have j: "?j < length x" using Suc.prems by linarith
  have "mset ?x = mset x"
    using mset_swap [OF j Suc.prems] by simp
  moreover have "i < length ?x" using Suc.prems by simp
  ultimately show ?case
    using Suc.IH [of ?x "Suc p"] by (simp add: randbelow_def)
qed

lemma shuffle_from_pos: "snd (shuffle_from src p i x) = p + i"
  by (induction i arbitrary: p x) (simp_all add: randbelow_def)

lemma shuffle_mset: "mset (fst (shuffle src p x)) = mset x"
proof (cases x)
  case Nil
  then show ?thesis by (simp add: shuffle_def)
next
  case (Cons a as)
  then show ?thesis by (simp add: shuffle_def shuffle_from_mset)
qed

lemma shuffle_pos: "snd (shuffle src p x) = p + (length x - 1)"
  by (simp add: shuffle_def shuffle_from_pos)

lemma fill_fst:
  "char_pool \<noteq> [] \<Longrightarrow>
   \<exists>fs. fst (fill src p n char_pool pw) = pw @ fs \<and> length fs = n \<and> set fs \<subseteq> set char_pool"
proof (induction n arbitrary: p pw)
  case 0
  then show ?case by simp
next
  case (Suc n)
  obtain c p' where c: "choice src p char_pool = (c, p')" by (cases "choice src p char_pool")
  then have cin: "c \<in> set char_pool" using choice_mem [OF Suc.prems, of src p] by simp
  from Suc.IH [OF Suc.prems, of p' "pw @ [c]"] obtain fs where
    fs: "fst (fill src p' n char_pool (pw @ [c])) = (pw @ [c]) @ fs" "length fs = n"
        "set fs \<subseteq> set char_pool" by blast
  show ?case
  proof (intro exI conjI)
    show "fst (fill src p (Suc n) char_pool pw) = pw @ (c # fs)" using c fs by simp
    show "length (c # fs) = Suc n" using fs by simp
    show "set (c # fs) \<subseteq> set char_pool" using fs cin by simp
  qed
qed

lemma fill_pos: "snd (fill src p n char_pool pw) = p + n"
  by (induction n arbitrary: p pw) (simp_all add: choice_def randbelow_def)

lemma add_class_pool:
  "fst (add_class src u a st) = fst st @ (if u then a else [])"
  by (simp add: add_class_def split: prod.splits)

lemma add_class_required:
  "fst (snd (add_class src u a st)) =
     fst (snd st) @ (if u then [fst (choice src (snd (snd st)) a)] else [])"
  by (simp add: add_class_def split: prod.splits)

lemma add_class_pos:
  "snd (snd (add_class src u a st)) = snd (snd st) + (if u then 1 else 0)"
  by (simp add: add_class_def choice_def randbelow_def split: prod.splits)

lemma select_classes_pool: "fst (select_classes src p r) = pool_of r"
  by (simp add: select_classes_def add_class_pool pool_of_def)

lemma select_classes_length:
  "length (fst (snd (select_classes src p r))) =
     (if use_lowercase r then 1 else 0) + (if use_uppercase r then 1 else 0) +
     (if use_digits r then 1 else 0) + (if use_special r then 1 else 0)"
  by (simp add: select_classes_def add_class_required)

lemma select_classes_pos:
  "snd (snd (select_classes src p r)) = p + length (fst (snd (select_classes src p r)))"
  by (simp add: select_classes_def add_class_required add_class_pos)

lemma select_classes_required_subset:
  "set (fst (snd (select_classes src p r))) \<subseteq> set (pool_of r)"
  using alphabets_nonempty
  by (auto simp: select_classes_def add_class_required pool_of_def choice_mem)

lemma select_classes_lowercase:
  "use_lowercase r \<Longrightarrow> \<exists>c \<in> set (fst (snd (select_classes src p r))). c \<in> set lowercase"
  using alphabets_nonempty
  by (auto simp: select_classes_def add_class_required choice_mem)

lemma select_classes_uppercase:
  "use_uppercase r \<Longrightarrow> \<exists>c \<in> set (fst (snd (select_classes src p r))). c \<in> set uppercase"
  using alphabets_nonempty
  by (auto simp: select_classes_def add_class_required choice_mem)

lemma select_classes_digits:
  "use_digits r \<Longrightarrow> \<exists>c \<in> set (fst (snd (select_classes src p r))). c \<in> set digits"
  using alphabets_nonempty
  by (auto simp: select_classes_def add_class_required choice_mem)

lemma select_classes_special:
  "use_special r \<Longrightarrow> \<exists>c \<in> set (fst (snd (select_classes src p r))). c \<in> set special_chars"
  using alphabets_nonempty
  by (auto simp: select_classes_def add_class_required choice_mem)

subsection \<open>Attempts and the retry\<close>

lemma pool_of_empty_iff:
  "pool_of r = [] \<longleftrightarrow>
     \<not> (use_lowercase r \<or> use_uppercase r \<or> use_digits r \<or> use_special r)"
  using alphabets_nonempty by (simp add: pool_of_def)

lemma set_pool_of:
  "set (pool_of r) =
     (if use_lowercase r then set lowercase else {}) \<union>
     (if use_uppercase r then set uppercase else {}) \<union>
     (if use_digits r then set digits else {}) \<union>
     (if use_special r then set special_chars else {})"
  by (auto simp: pool_of_def)

lemma select_classes_length_le: "length (fst (snd (select_classes src p r))) \<le> 4"
  by (simp add: select_classes_length)

lemma attempt_shape:
  assumes "pool_of r \<noteq> []"
  shows "\<exists>fs. mset (fst (attempt src p r)) = mset (fst (snd (select_classes src p r)) @ fs) \<and>
              length fs = nat (pw_length r - int (length (fst (snd (select_classes src p r))))) \<and>
              set fs \<subseteq> set (pool_of r)"
proof -
  obtain char_pool required_chars p1 where
    sel: "select_classes src p r = (char_pool, required_chars, p1)"
    by (cases "select_classes src p r")
  have pool: "char_pool = pool_of r"
    using select_classes_pool [of src p r] sel by simp
  let ?n = "nat (pw_length r - int (length required_chars))"
  have ne: "char_pool \<noteq> []" using assms pool by simp
  from fill_fst [OF ne, of src p1 ?n required_chars]
  obtain fs where fs: "fst (fill src p1 ?n char_pool required_chars) = required_chars @ fs"
    "length fs = ?n" "set fs \<subseteq> set char_pool" by blast
  have "fst (attempt src p r) =
          fst (shuffle src (snd (fill src p1 ?n char_pool required_chars))
                 (fst (fill src p1 ?n char_pool required_chars)))"
    by (simp add: attempt_def sel split: prod.splits)
  then have "mset (fst (attempt src p r)) = mset (required_chars @ fs)"
    using fs(1) by (simp only: shuffle_mset)
  then show ?thesis using fs pool sel by auto
qed

lemma attempt_length:
  assumes "4 \<le> pw_length r" and "pool_of r \<noteq> []"
  shows "int (length (fst (attempt src p r))) = pw_length r"
proof -
  from attempt_shape [OF assms(2), of src p] obtain fs where
    fs: "mset (fst (attempt src p r)) = mset (fst (snd (select_classes src p r)) @ fs)"
        "length fs = nat (pw_length r - int (length (fst (snd (select_classes src p r)))))"
    by blast
  have "length (fst (attempt src p r)) = length (fst (snd (select_classes src p r)) @ fs)"
    using fs(1) by (metis size_mset)
  then show ?thesis
    using fs(2) assms(1) select_classes_length_le [of src p r] by simp
qed

lemma attempt_subset:
  assumes "pool_of r \<noteq> []"
  shows "set (fst (attempt src p r)) \<subseteq> set (pool_of r)"
proof -
  from attempt_shape [OF assms, of src p] obtain fs where
    fs: "mset (fst (attempt src p r)) = mset (fst (snd (select_classes src p r)) @ fs)"
        "set fs \<subseteq> set (pool_of r)"
    by blast
  have "set (fst (attempt src p r)) = set (fst (snd (select_classes src p r)) @ fs)"
    using fs(1) by (metis set_mset_mset)
  then show ?thesis
    using fs(2) select_classes_required_subset [of src p r] by simp
qed

lemma attempt_required:
  assumes "pool_of r \<noteq> []"
  shows "set (fst (snd (select_classes src p r))) \<subseteq> set (fst (attempt src p r))"
proof -
  from attempt_shape [OF assms, of src p] obtain fs where
    fs: "mset (fst (attempt src p r)) = mset (fst (snd (select_classes src p r)) @ fs)"
    by blast
  have "set (fst (attempt src p r)) = set (fst (snd (select_classes src p r)) @ fs)"
    using fs by (metis set_mset_mset)
  then show ?thesis by simp
qed

lemma attempt_pos:
  "snd (attempt src p r) =
     p + length (fst (snd (select_classes src p r)))
       + nat (pw_length r - int (length (fst (snd (select_classes src p r)))))
       + (length (fst (attempt src p r)) - 1)"
proof -
  obtain char_pool required_chars p1 where
    sel: "select_classes src p r = (char_pool, required_chars, p1)"
    by (cases "select_classes src p r")
  have p1: "p1 = p + length required_chars"
    using select_classes_pos [of src p r] sel by simp
  let ?f = "fill src p1 (nat (pw_length r - int (length required_chars))) char_pool required_chars"
  have a: "attempt src p r = shuffle src (snd ?f) (fst ?f)"
    by (simp add: attempt_def sel split: prod.splits)
  have "length (fst (shuffle src (snd ?f) (fst ?f))) = length (fst ?f)"
    using shuffle_mset [of src "snd ?f" "fst ?f"] by (metis size_mset)
  then show ?thesis
    by (simp add: a shuffle_pos fill_pos p1 sel)
qed

lemma attempt_advances:
  assumes "4 \<le> pw_length r" and "pool_of r \<noteq> []"
  shows "p < snd (attempt src p r)"
  using attempt_length [OF assms, of src p] assms(1) attempt_pos [of src p r] by linarith

lemma generate_password_unfold:
  "generate_password src depth p r =
     (if pw_length r < 4 then
        Inl (ValueError ''Password length must be at least 4 characters'')
      else if pool_of r = [] then
        Inl (ValueError ''At least one character type must be selected'')
      else case depth of
          0 \<Rightarrow> Inl RecursionError
        | Suc depth' \<Rightarrow>
            if has_predictable_patterns (fst (attempt src p r)) then
              generate_password src depth' (snd (attempt src p r)) r
            else Inr (attempt src p r))"
proof -
  obtain char_pool required_chars p1 where
    sel: "select_classes src p r = (char_pool, required_chars, p1)"
    by (cases "select_classes src p r")
  have pool: "char_pool = pool_of r"
    using select_classes_pool [of src p r] sel by simp
  show ?thesis
    by (subst generate_password.simps)
      (simp add: attempt_def sel pool split: prod.splits nat.splits)
qed

lemma generate_password_0:
  assumes "4 \<le> pw_length r" and "pool_of r \<noteq> []"
  shows "generate_password src 0 p r = Inl RecursionError"
  using assms by (subst generate_password_unfold) simp

lemma generate_password_Suc:
  assumes "4 \<le> pw_length r" and "pool_of r \<noteq> []"
  shows "generate_password src (Suc depth) p r =
     (if has_predictable_patterns (fst (attempt src p r)) then
        generate_password src depth (snd (attempt src p r)) r
      else Inr (attempt src p r))"
  using assms by (subst generate_password_unfold) simp

lemma candidate_0: "candidate src r p 0 = fst (attempt src p r)"
  by (simp add: candidate_def)

lemma candidate_Suc: "candidate src r p (Suc k) = candidate src r (snd (attempt src p r)) k"
  by (simp add: candidate_def)

text \<open>Every attempt that fits on the stack is rejected: the call raises.\<close>

lemma generate_password_exhausted:
  assumes "4 \<le> pw_length r" and "pool_of r \<noteq> []"
  shows "(\<And>k. k < depth \<Longrightarrow> has_predictable_patterns (candidate src r p k)) \<Longrightarrow>
         generate_password src depth p r = Inl RecursionError"
proof (induction depth arbitrary: p)
  case 0
  show ?case by (rule generate_password_0 [OF assms])
next
  case (Suc depth)
  have first: "has_predictable_patterns (fst (attempt src p r))"
    using Suc.prems [of 0] by (simp add: candidate_0)
  have "generate_password src depth (snd (attempt src p r)) r = Inl RecursionError"
  proof (rule Suc.IH)
    fix k assume "k < depth"
    then show "has_predictable_patterns (candidate src r (snd (attempt src p r)) k)"
      using Suc.prems [of "Suc k"] by (simp add: candidate_Suc)
  qed
  then show ?case using first by (simp add: generate_password_Suc [OF assms])
qed

text \<open>The first candidate that passes, if it fits on the stack, is what the call returns.\<close>

lemma generate_password_returns:
  assumes "4 \<le> pw_length r" and "pool_of r \<noteq> []"
  shows "k < depth \<Longrightarrow> \<not> has_predictable_patterns (candidate src r p k) \<Longrightarrow>
         (\<And>j. j < k \<Longrightarrow> has_predictable_patterns (candidate src r p j)) \<Longrightarrow>
         generate_password src depth p r = Inr (attempt src (retry_pos src r p k) r)"
proof (induction k arbitrary: p depth)
  case 0
  then obtain d where d: "depth = Suc d" by (cases depth) auto
  show ?case
    using "0.prems"(2) unfolding d by (simp add: generate_password_Suc [OF assms] candidate_0)
next
  case (Suc k)
  from Suc.prems(1) obtain d where d: "depth = Suc d" and kd: "k < d" by (cases depth) auto
  have first: "has_predictable_patterns (fst (attempt src p r))"
    using Suc.prems(3) [of 0] by (simp add: candidate_0)
  have "generate_password src d (snd (attempt src p r)) r =
          Inr (attempt src (retry_pos src r (snd (attempt src p r)) k) r)"
  proof (rule Suc.IH [OF kd])
    show "\<not> has_predictable_patterns (candidate src r (snd (attempt src p r)) k)"
      using Suc.prems(2) by (simp add: candidate_Suc)
    fix j assume "j < k"
    then show "has_predictable_patterns (candidate src r (snd (attempt src p r)) j)"
      using Suc.prems(3) [of "Suc j"] by (simp add: candidate_Suc)
  qed
  then show ?case
    using first unfolding d by (simp add: generate_password_Suc [OF assms])
qed

text \<open>The two outcomes of a call with valid parameters.\<close>

lemma generate_password_outcome:
  assumes "4 \<le> pw_length r" and "pool_of r \<noteq> []"
  shows "(\<exists>k<depth. generate_password src depth p r = Inr (attempt src (retry_pos src r p k) r) \<and>
            \<not> has_predictable_patterns (candidate src r p k) \<and>
            (\<forall>j<k. has_predictable_patterns (candidate src r p j))) \<or>
         (generate_password src depth p r = Inl RecursionError \<and>
            (\<forall>k<depth. has_predictable_patterns (candidate src r p k)))"
proof (cases "\<forall>k<depth. has_predictable_patterns (candidate src r p k)")
  case True
  then show ?thesis using generate_password_exhausted [OF assms, of depth src p] by simp
next
  case False
  define m where "m = (LEAST k. k < depth \<and> \<not> has_predictable_patterns (candidate src r p k))"
  from False have ex: "\<exists>k. k < depth \<and> \<not> has_predictable_patterns (candidate src r p k)"
    by blast
  have m: "m < depth \<and> \<not> has_predictable_patterns (candidate src r p m)"
    unfolding m_def using ex by (rule LeastI_ex)
  have least: "has_predictable_patterns (candidate src r p j)" if "j < m" for j
  proof (rule ccontr)
    assume "\<not> has_predictable_patterns (candidate src r p j)"
    moreover have "j < depth" using that m by simp
    ultimately have "m \<le> j" unfolding m_def by (intro Least_le) simp
    with that show False by simp
  qed
  have "generate_password src depth p r = Inr (attempt src (retry_pos src r p m) r)"
    using generate_password_returns [OF assms, of m depth src p] m least by blast
  then show ?thesis using m least by blast
qed

lemma generate_password_returned:
  assumes "4 \<le> pw_length r" and "pool_of r \<noteq> []"
    and "generate_password src depth p r = Inr (pw, p')"
  shows "\<exists>k<depth. (pw, p') = attempt src (retry_pos src r p k) r \<and>
           \<not> has_predictable_patterns (candidate src r p k)"
  using generate_password_outcome [OF assms(1,2), of depth src p] assms(3) by auto

lemma generate_password_no_value_error:
  assumes "4 \<le> pw_length r" and "pool_of r \<noteq> []"
  shows "generate_password src depth p r \<noteq> Inl (ValueError msg)"
  using generate_password_outcome [OF assms, of depth src p] by auto

subsection \<open>Some runs on the source of zeros\<close>

lemma attempt_zero_all_classes:
  "attempt zero_draws 0 \<lparr>pw_length = 4, use_uppercase = True, use_lowercase = True,
      use_digits = True, use_special = True\<rparr> = (''A0!a'', 7)"
  by code_simp

lemma pattern_A0_bang_a: "\<not> has_predictable_patterns ''A0!a''"
  by code_simp

lemma generate_zero_all_classes:
  "generate_password zero_draws (Suc depth) 0 \<lparr>pw_length = 4, use_uppercase = True,
      use_lowercase = True, use_digits = True, use_special = True\<rparr> = Inr (''A0!a'', 7)"
  by (subst generate_password_unfold)
    (simp add: pool_of_empty_iff attempt_zero_all_classes pattern_A0_bang_a)

lemma candidate_zero_lowercase:
  "candidate zero_draws \<lparr>pw_length = 4, use_uppercase = False, use_lowercase = True,
      use_digits = False, use_special = False\<rparr> p k = ''aaaa''"
  unfolding candidate_def by code_simp

lemma candidate_zero_letters:
  "candidate zero_draws \<lparr>pw_length = 4, use_uppercase = True, use_lowercase = True,
      use_digits = False, use_special = False\<rparr> p k = ''Aaaa''"
  unfolding candidate_def by code_simp

lemma candidate_zero_digits:
  "candidate zero_draws \<lparr>pw_length = 4, use_uppercase = False, use_lowercase = False,
      use_digits = True, use_special = False\<rparr> p k = ''0000''"
  unfolding candidate_def by code_simp

lemma candidate_zero_special:
  "candidate zero_draws \<lparr>pw_length = 4, use_uppercase = False, use_lowercase = False,
      use_digits = False, use_special = True\<rparr> p k = ''!!!!''"
  unfolding candidate_def by code_simp

lemma patterns_of_zero_runs:
  "has_predictable_patterns ''aaaa''" "has_predictable_patterns ''Aaaa''"
  "has_predictable_patterns ''0000''" "has_predictable_patterns ''!!!!''"
  by code_simp+

section \<open>The claims\<close>

subsection \<open>Length and alphabet of a generated password\<close>

text \<open>
  Claim C1 says that for every valid request \<^verbatim>\<open>generate_password\<close> returns a password
  of the requested length over the selected alphabets. A valid request need not get a
  password: with the draws that are all zero, four lowercase letters come out as \<open>aaaa\<close>
  in every attempt, each is rejected, and with room for 990 attempts the call raises
  \<^verbatim>\<open>RecursionError\<close>.
\<close>

theorem generate_password_length_alphabet_counterexample:
  "generate_password zero_draws 990 0 \<lparr>pw_length = 4, use_uppercase = False, use_lowercase = True,
      use_digits = False, use_special = False\<rparr> = Inl RecursionError"
proof (rule generate_password_exhausted)
  show "4 \<le> pw_length \<lparr>pw_length = 4, use_uppercase = False, use_lowercase = True,
      use_digits = False, use_special = False\<rparr>" by simp
  show "pool_of \<lparr>pw_length = 4, use_uppercase = False, use_lowercase = True,
      use_digits = False, use_special = False\<rparr> \<noteq> []" by (simp add: pool_of_empty_iff)
  fix k :: nat
  show "has_predictable_patterns (candidate zero_draws \<lparr>pw_length = 4, use_uppercase = False, use_lowercase = True,
      use_digits = False, use_special = False\<rparr> 0 k)"
    by (simp only: candidate_zero_lowercase patterns_of_zero_runs)
qed

text \<open>
  Claim C1 as amended: for every valid request (length at least 4 and at least one
  character class selected) and every source of draws, \<^verbatim>\<open>generate_password\<close> either
  returns a password that has exactly the requested length and whose symbols all belong
  to the union of the alphabets of the selected classes, or raises \<^verbatim>\<open>RecursionError\<close>,
  and this only when every attempt that fits on the interpreter's stack was rejected by
  the pattern check.
\<close>

theorem generate_password_length_alphabet:
  assumes "4 \<le> pw_length r"
    and "use_lowercase r \<or> use_uppercase r \<or> use_digits r \<or> use_special r"
  shows "(\<exists>pw p'. generate_password src depth p r = Inr (pw, p') \<and>
            int (length pw) = pw_length r \<and>
            set pw \<subseteq> (if use_lowercase r then set lowercase else {}) \<union>
                 (if use_uppercase r then set uppercase else {}) \<union>
                 (if use_digits r then set digits else {}) \<union>
                 (if use_special r then set special_chars else {})) \<or>
         (generate_password src depth p r = Inl RecursionError \<and>
            (\<forall>k<depth. has_predictable_patterns (candidate src r p k)))"
proof -
  have pool: "pool_of r \<noteq> []" using assms(2) by (simp add: pool_of_empty_iff)
  from generate_password_outcome [OF assms(1) pool, of depth src p]
  show ?thesis
  proof
    assume "\<exists>k<depth. generate_password src depth p r =
        Inr (attempt src (retry_pos src r p k) r) \<and>
        \<not> has_predictable_patterns (candidate src r p k) \<and>
        (\<forall>j<k. has_predictable_patterns (candidate src r p j))"
    then obtain k where
      k: "generate_password src depth p r = Inr (attempt src (retry_pos src r p k) r)"
      by blast
    let ?q = "retry_pos src r p k"
    have "generate_password src depth p r = Inr (fst (attempt src ?q r), snd (attempt src ?q r))"
      using k by simp
    moreover have "int (length (fst (attempt src ?q r))) = pw_length r"
      by (rule attempt_length [OF assms(1) pool])
    moreover have "set (fst (attempt src ?q r)) \<subseteq> (if use_lowercase r then set lowercase else {}) \<union>
                 (if use_uppercase r then set uppercase else {}) \<union>
                 (if use_digits r then set digits else {}) \<union>
                 (if use_special r then set special_chars else {})"
      using attempt_subset [OF pool, of src ?q] by (simp only: set_pool_of)
    ultimately show ?thesis by blast
  next
    assume "generate_password src depth p r = Inl RecursionError \<and>
            (\<forall>k<depth. has_predictable_patterns (candidate src r p k))"
    then show ?thesis by blast
  qed
qed

theorem generate_password_length_alphabet_witness:
  "generate_password zero_draws 990 0 \<lparr>pw_length = 4, use_uppercase = True, use_lowercase = True,
      use_digits = True, use_special = True\<rparr> = Inr (''A0!a'', 7) \<and>
   int (length ''A0!a'') = 4 \<and>
   set ''A0!a'' \<subseteq> set lowercase \<union> set uppercase \<union> set digits \<union> set special_chars"
  using generate_password_length_alphabet [of "\<lparr>pw_length = 4, use_uppercase = True, use_lowercase = True,
      use_digits = True, use_special = True\<rparr>" zero_draws 990 0]
    generate_zero_all_classes [of 989]
  by simp

subsection \<open>One symbol of every selected class\<close>

text \<open>
  Claim C2 says that for every valid request the password that \<^verbatim>\<open>generate_password\<close>
  returns holds a symbol of every selected class. A valid request need not get a
  password: with the draws that are all zero, four letters of either case come out as
  \<open>Aaaa\<close> in every attempt, each is rejected, and with room for 990 attempts the call
  raises \<^verbatim>\<open>RecursionError\<close>.
\<close>

theorem generate_password_class_coverage_counterexample:
  "generate_password zero_draws 990 0 \<lparr>pw_length = 4, use_uppercase = True, use_lowercase = True,
      use_digits = False, use_special = False\<rparr> = Inl RecursionError"
proof (rule generate_password_exhausted)
  show "4 \<le> pw_length \<lparr>pw_length = 4, use_uppercase = True, use_lowercase = True,
      use_digits = False, use_special = False\<rparr>" by simp
  show "pool_of \<lparr>pw_length = 4, use_uppercase = True, use_lowercase = True,
      use_digits = False, use_special = False\<rparr> \<noteq> []" by (simp add: pool_of_empty_iff)
  fix k :: nat
  show "has_predictable_patterns (candidate zero_draws \<lparr>pw_length = 4, use_uppercase = True, use_lowercase = True,
      use_digits = False, use_special = False\<rparr> 0 k)"
    by (simp only: candidate_zero_letters patterns_of_zero_runs)
qed

text \<open>
  Claim C2 as amended: for every valid request and every source of draws,
  \<^verbatim>\<open>generate_password\<close> either returns a password that holds, for every selected
  character class, at least one symbol of that class's alphabet, or raises
  \<^verbatim>\<open>RecursionError\<close>, and this only when every attempt that fits on the interpreter's
  stack was rejected by the pattern check.
\<close>

theorem generate_password_class_coverage:
  assumes "4 \<le> pw_length r"
    and "use_lowercase r \<or> use_uppercase r \<or> use_digits r \<or> use_special r"
  shows "(\<exists>pw p'. generate_password src depth p r = Inr (pw, p') \<and>
            (use_lowercase r \<longrightarrow> (\<exists>c \<in> set pw. c \<in> set lowercase)) \<and>
            (use_uppercase r \<longrightarrow> (\<exists>c \<in> set pw. c \<in> set uppercase)) \<and>
            (use_digits r \<longrightarrow> (\<exists>c \<in> set pw. c \<in> set digits)) \<and>
            (use_special r \<longrightarrow> (\<exists>c \<in> set pw. c \<in> set special_chars))) \<or>
         (generate_password src depth p r = Inl RecursionError \<and>
            (\<forall>k<depth. has_predictable_patterns (candidate src r p k)))"
proof -
  have pool: "pool_of r \<noteq> []" using assms(2) by (simp add: pool_of_empty_iff)
  from generate_password_outcome [OF assms(1) pool, of depth src p]
  show ?thesis
  proof
    assume "\<exists>k<depth. generate_password src depth p r =
        Inr (attempt src (retry_pos src r p k) r) \<and>
        \<not> has_predictable_patterns (candidate src r p k) \<and>
        (\<forall>j<k. has_predictable_patterns (candidate src r p j))"
    then obtain k where
      k: "generate_password src depth p r = Inr (attempt src (retry_pos src r p k) r)"
      by blast
    let ?q = "retry_pos src r p k"
    let ?pw = "fst (attempt src ?q r)"
    have ret: "generate_password src depth p r = Inr (?pw, snd (attempt src ?q r))"
      using k by simp
    have req: "set (fst (snd (select_classes src ?q r))) \<subseteq> set ?pw"
      by (rule attempt_required [OF pool])
    have "use_lowercase r \<longrightarrow> (\<exists>c \<in> set ?pw. c \<in> set lowercase)"
      using select_classes_lowercase [of r src ?q] req by blast
    moreover have "use_uppercase r \<longrightarrow> (\<exists>c \<in> set ?pw. c \<in> set uppercase)"
      using select_classes_uppercase [of r src ?q] req by blast
    moreover have "use_digits r \<longrightarrow> (\<exists>c \<in> set ?pw. c \<in> set digits)"
      using select_classes_digits [of r src ?q] req by blast
    moreover have "use_special r \<longrightarrow> (\<exists>c \<in> set ?pw. c \<in> set special_chars)"
      using select_classes_special [of r src ?q] req by blast
    ultimately show ?thesis using ret by blast
  next
    assume "generate_password src depth p r = Inl RecursionError \<and>
            (\<forall>k<depth. has_predictable_patterns (candidate src r p k))"
    then show ?thesis by blast
  qed
qed

theorem generate_password_class_coverage_witness:
  "generate_password zero_draws 990 0 \<lparr>pw_length = 4, use_uppercase = True, use_lowercase = True,
      use_digits = True, use_special = True\<rparr> = Inr (''A0!a'', 7) \<and>
   (\<exists>c \<in> set ''A0!a''. c \<in> set lowercase) \<and>
   (\<exists>c \<in> set ''A0!a''. c \<in> set uppercase) \<and>
   (\<exists>c \<in> set ''A0!a''. c \<in> set digits) \<and>
   (\<exists>c \<in> set ''A0!a''. c \<in> set special_chars)"
  using generate_password_class_coverage [of "\<lparr>pw_length = 4, use_uppercase = True, use_lowercase = True,
      use_digits = True, use_special = True\<rparr>" zero_draws 990 0]
    generate_zero_all_classes [of 989]
  by simp

subsection \<open>A generated password passes the pattern check\<close>

text \<open>
  Claim C3 says that for every valid request the password that \<^verbatim>\<open>generate_password\<close>
  returns passes the pattern check. A valid request need not get a password: with the
  draws that are all zero, four digits come out as \<open>0000\<close> in every attempt, each is
  rejected, and with room for 990 attempts the call raises \<^verbatim>\<open>RecursionError\<close>.
\<close>

theorem generate_password_no_pattern_counterexample:
  "generate_password zero_draws 990 0 \<lparr>pw_length = 4, use_uppercase = False, use_lowercase = False,
      use_digits = True, use_special = False\<rparr> = Inl RecursionError"
proof (rule generate_password_exhausted)
  show "4 \<le> pw_length \<lparr>pw_length = 4, use_uppercase = False, use_lowercase = False,
      use_digits = True, use_special = False\<rparr>" by simp
  show "pool_of \<lparr>pw_length = 4, use_uppercase = False, use_lowercase = False,
      use_digits = True, use_special = False\<rparr> \<noteq> []" by (simp add: pool_of_empty_iff)
  fix k :: nat
  show "has_predictable_patterns (candidate zero_draws \<lparr>pw_length = 4, use_uppercase = False, use_lowercase = False,
      use_digits = True, use_special = False\<rparr> 0 k)"
    by (simp only: candidate_zero_digits patterns_of_zero_runs)
qed

text \<open>
  Claim C3 as amended: for every valid request and every source of draws,
  \<^verbatim>\<open>generate_password\<close> either returns a password on which
  \<^verbatim>\<open>_has_predictable_patterns\<close> is false, or raises \<^verbatim>\<open>RecursionError\<close>, and this only
  when every attempt that fits on the interpreter's stack was rejected by the pattern
  check.
\<close>

theorem generate_password_no_pattern:
  assumes "4 \<le> pw_length r"
    and "use_lowercase r \<or> use_uppercase r \<or> use_digits r \<or> use_special r"
  shows "(\<exists>pw p'. generate_password src depth p r = Inr (pw, p') \<and>
            \<not> has_predictable_patterns pw) \<or>
         (generate_password src depth p r = Inl RecursionError \<and>
            (\<forall>k<depth. has_predictable_patterns (candidate src r p k)))"
proof -
  have pool: "pool_of r \<noteq> []" using assms(2) by (simp add: pool_of_empty_iff)
  from generate_password_outcome [OF assms(1) pool, of depth src p]
  show ?thesis
  proof
    assume "\<exists>k<depth. generate_password src depth p r =
        Inr (attempt src (retry_pos src r p k) r) \<and>
        \<not> has_predictable_patterns (candidate src r p k) \<and>
        (\<forall>j<k. has_predictable_patterns (candidate src r p j))"
    then obtain k where
      k: "generate_password src depth p r = Inr (attempt src (retry_pos src r p k) r)"
        "\<not> has_predictable_patterns (candidate src r p k)"
      by blast
    let ?q = "retry_pos src r p k"
    have "generate_password src depth p r = Inr (fst (attempt src ?q r), snd (attempt src ?q r))"
      using k(1) by simp
    moreover have "\<not> has_predictable_patterns (fst (attempt src ?q r))"
      using k(2) by (simp add: candidate_def)
    ultimately show ?thesis by blast
  next
    assume "generate_password src depth p r = Inl RecursionError \<and>
            (\<forall>k<depth. has_predictable_patterns (candidate src r p k))"
    then show ?thesis by blast
  qed
qed

theorem generate_password_no_pattern_witness:
  "generate_password zero_draws 990 0 \<lparr>pw_length = 4, use_uppercase = True, use_lowercase = True,
      use_digits = True, use_special = True\<rparr> = Inr (''A0!a'', 7) \<and>
   \<not> has_predictable_patterns ''A0!a''"
  using generate_password_no_pattern [of "\<lparr>pw_length = 4, use_uppercase = True, use_lowercase = True,
      use_digits = True, use_special = True\<rparr>" zero_draws 990 0]
    generate_zero_all_classes [of 989]
  by simp

subsection \<open>What bounds the retries\<close>

text \<open>
  Claim C6 says that the retry is capped at a bound the implementation chose, so that
  \<^verbatim>\<open>generate_password\<close> is total on valid parameters. The source has no such cap: the
  retry is its call of itself, and a run of rejections ends only when the interpreter's
  stack is used up, with \<^verbatim>\<open>RecursionError\<close> in place of a result. With the draws that
  are all zero, four special characters come out as \<open>!!!!\<close> in every attempt, and with
  room for 990 attempts the call raises that error.
\<close>

theorem generate_password_retry_counterexample:
  "generate_password zero_draws 990 0 \<lparr>pw_length = 4, use_uppercase = False, use_lowercase = False,
      use_digits = False, use_special = True\<rparr> = Inl RecursionError"
proof (rule generate_password_exhausted)
  show "4 \<le> pw_length \<lparr>pw_length = 4, use_uppercase = False, use_lowercase = False,
      use_digits = False, use_special = True\<rparr>" by simp
  show "pool_of \<lparr>pw_length = 4, use_uppercase = False, use_lowercase = False,
      use_digits = False, use_special = True\<rparr> \<noteq> []" by (simp add: pool_of_empty_iff)
  fix k :: nat
  show "has_predictable_patterns (candidate zero_draws \<lparr>pw_length = 4, use_uppercase = False, use_lowercase = False,
      use_digits = False, use_special = True\<rparr> 0 k)"
    by (simp only: candidate_zero_special patterns_of_zero_runs)
qed

text \<open>
  Claim C6 as amended: every call of \<^verbatim>\<open>generate_password\<close> with valid parameters ends,
  for every sequence of draws, but the retry has no cap of the program's own: it is
  bounded only by the attempts that fit on the interpreter's stack. The call raises
  \<^verbatim>\<open>RecursionError\<close> exactly when all of these attempts are rejected by the pattern
  check, and otherwise returns the first candidate that passes.
\<close>

theorem generate_password_retry_bound:
  assumes "4 \<le> pw_length r"
    and "use_lowercase r \<or> use_uppercase r \<or> use_digits r \<or> use_special r"
  shows "(generate_password src depth p r = Inl RecursionError \<longleftrightarrow>
            (\<forall>k<depth. has_predictable_patterns (candidate src r p k))) \<and>
         (generate_password src depth p r \<noteq> Inl RecursionError \<longrightarrow>
            (\<exists>k<depth. generate_password src depth p r =
                 Inr (attempt src (retry_pos src r p k) r) \<and>
               \<not> has_predictable_patterns (candidate src r p k) \<and>
               (\<forall>j<k. has_predictable_patterns (candidate src r p j))))"
proof -
  have pool: "pool_of r \<noteq> []" using assms(2) by (simp add: pool_of_empty_iff)
  from generate_password_outcome [OF assms(1) pool, of depth src p]
  show ?thesis by auto
qed

theorem generate_password_retry_bound_witness:
  "generate_password zero_draws 990 0 \<lparr>pw_length = 4, use_uppercase = True, use_lowercase = True,
      use_digits = True, use_special = True\<rparr> \<noteq> Inl RecursionError \<and>
   \<not> (\<forall>k<990. has_predictable_patterns (candidate zero_draws \<lparr>pw_length = 4, use_uppercase = True, use_lowercase = True,
      use_digits = True, use_special = True\<rparr> 0 k))"
  using generate_password_retry_bound [of "\<lparr>pw_length = 4, use_uppercase = True, use_lowercase = True,
      use_digits = True, use_special = True\<rparr>" zero_draws 990 0]
    generate_zero_all_classes [of 989]
  by simp

subsection \<open>Parameter errors\<close>

lemma generate_loop_first_raises:
  "generate_password src depth p r = Inl e \<Longrightarrow> 0 < n \<Longrightarrow>
   generate_loop src depth r n p passwords = Inl e"
  by (cases n) simp_all

lemma generate_loop_raises_only:
  "generate_loop src depth r n p passwords = Inl e \<Longrightarrow>
   \<exists>q. generate_password src depth q r = Inl e"
proof (induction n arbitrary: p passwords)
  case 0
  then show ?case by simp
next
  case (Suc n)
  then show ?case
    by (auto split: sum.splits prod.splits)
qed

text \<open>
  Claim C5 says that \<^verbatim>\<open>generate_multiple_passwords\<close> raises the parameter error,
  which in the source is \<^verbatim>\<open>ValueError\<close>, exactly when the count is below 1. The batch passes its keyword arguments on to
  \<^verbatim>\<open>generate_password\<close> and does not catch what that raises, so a count of 1 with a
  requested length of 3 raises as well.
\<close>

theorem generate_multiple_passwords_raises_counterexample:
  "\<not> ((\<exists>msg. generate_multiple_passwords zero_draws 990 0 1 \<lparr>pw_length = 3, use_uppercase = True,
          use_lowercase = True, use_digits = True, use_special = True\<rparr> = Inl (ValueError msg))
       \<longleftrightarrow> (1 :: int) < 1)"
  by (simp add: generate_multiple_passwords_def generate_password_unfold)

text \<open>
  Claim C5 as amended: \<^verbatim>\<open>generate_password\<close> raises \<^verbatim>\<open>ValueError\<close> exactly when the
  length is below 4 or no character class is selected, and
  \<^verbatim>\<open>generate_multiple_passwords\<close> raises it exactly when the count is below 1 or the
  request is one that \<^verbatim>\<open>generate_password\<close> refuses. In each case the error is the
  outcome whatever the draws and the room on the stack are, with no retry, and its message
  names the constraint:
  the count first, then the length, then the class selection.
\<close>

theorem parameter_errors:
  "((\<exists>msg. generate_password src depth p r = Inl (ValueError msg)) \<longleftrightarrow>
      pw_length r < 4 \<or>
      \<not> (use_lowercase r \<or> use_uppercase r \<or> use_digits r \<or> use_special r)) \<and>
   (pw_length r < 4 \<longrightarrow>
      generate_password src depth p r =
        Inl (ValueError ''Password length must be at least 4 characters'')) \<and>
   (4 \<le> pw_length r \<and>
    \<not> (use_lowercase r \<or> use_uppercase r \<or> use_digits r \<or> use_special r) \<longrightarrow>
      generate_password src depth p r =
        Inl (ValueError ''At least one character type must be selected'')) \<and>
   ((\<exists>msg. generate_multiple_passwords src depth p cnt r = Inl (ValueError msg)) \<longleftrightarrow>
      cnt < 1 \<or> pw_length r < 4 \<or>
      \<not> (use_lowercase r \<or> use_uppercase r \<or> use_digits r \<or> use_special r)) \<and>
   (cnt < 1 \<longrightarrow>
      generate_multiple_passwords src depth p cnt r =
        Inl (ValueError ''Count must be at least 1'')) \<and>
   (1 \<le> cnt \<and> pw_length r < 4 \<longrightarrow>
      generate_multiple_passwords src depth p cnt r =
        Inl (ValueError ''Password length must be at least 4 characters'')) \<and>
   (1 \<le> cnt \<and> 4 \<le> pw_length r \<and>
    \<not> (use_lowercase r \<or> use_uppercase r \<or> use_digits r \<or> use_special r) \<longrightarrow>
      generate_multiple_passwords src depth p cnt r =
        Inl (ValueError ''At least one character type must be selected''))"
proof -
  let ?sel = "use_lowercase r \<or> use_uppercase r \<or> use_digits r \<or> use_special r"
  let ?len_msg = "ValueError ''Password length must be at least 4 characters''"
  let ?sel_msg = "ValueError ''At least one character type must be selected''"
  have short: "generate_password s depth q r = Inl ?len_msg" if "pw_length r < 4" for s q
    using that by (subst generate_password_unfold) simp
  have nosel: "generate_password s depth q r = Inl ?sel_msg"
    if "4 \<le> pw_length r" "\<not> ?sel" for s q
    using that by (subst generate_password_unfold) (simp add: pool_of_empty_iff)
  have valid: "generate_password s depth q r \<noteq> Inl (ValueError msg)" if "4 \<le> pw_length r" "?sel" for s q msg
    using that generate_password_no_value_error [of r s depth q msg]
    by (simp add: pool_of_empty_iff)
  have one: "(\<exists>msg. generate_password src depth p r = Inl (ValueError msg)) \<longleftrightarrow> pw_length r < 4 \<or> \<not> ?sel"
  proof (cases "pw_length r < 4")
    case True
    then show ?thesis using short [of src p] by simp
  next
    case False
    then have len: "4 \<le> pw_length r" by simp
    show ?thesis
    proof (cases ?sel)
      case True
      then show ?thesis using valid [OF len True, of src p] False by blast
    next
      case False
      then show ?thesis using nosel [OF len False, of src p] by simp
    qed
  qed
  have small: "generate_multiple_passwords src depth p cnt r =
      Inl (ValueError ''Count must be at least 1'')" if "cnt < 1"
    using that by (simp add: generate_multiple_passwords_def)
  have propagated: "generate_multiple_passwords src depth p cnt r = Inl (ValueError msg)"
    if cnt: "1 \<le> cnt" and e: "generate_password src depth p r = Inl (ValueError msg)" for msg
  proof -
    have "0 < nat cnt" using cnt by simp
    from generate_loop_first_raises [OF e this]
    have "generate_loop src depth r (nat cnt) p [] = Inl (ValueError msg)" .
    then show ?thesis using cnt by (simp add: generate_multiple_passwords_def)
  qed
  have many_short: "generate_multiple_passwords src depth p cnt r = Inl ?len_msg"
    if "1 \<le> cnt" "pw_length r < 4"
    using propagated [OF that(1) short [OF that(2), of src p]] .
  have many_nosel: "generate_multiple_passwords src depth p cnt r = Inl ?sel_msg"
    if "1 \<le> cnt" "4 \<le> pw_length r" "\<not> ?sel"
    using propagated [OF that(1) nosel [OF that(2,3), of src p]] .
  have many: "(\<exists>msg. generate_multiple_passwords src depth p cnt r = Inl (ValueError msg)) \<longleftrightarrow>
      cnt < 1 \<or> pw_length r < 4 \<or> \<not> ?sel"
  proof (cases "cnt < 1")
    case True
    then show ?thesis using small by simp
  next
    case False
    then have cnt: "1 \<le> cnt" by simp
    show ?thesis
    proof (cases "pw_length r < 4")
      case True
      then show ?thesis using many_short [OF cnt] by simp
    next
      case long: False
      then have len: "4 \<le> pw_length r" by simp
      show ?thesis
      proof (cases ?sel)
        case nosel': False
        then show ?thesis using many_nosel [OF cnt len] by simp
      next
        case ok: True
        have "generate_multiple_passwords src depth p cnt r \<noteq> Inl (ValueError msg)" for msg
        proof
          assume "generate_multiple_passwords src depth p cnt r = Inl (ValueError msg)"
          then have "generate_loop src depth r (nat cnt) p [] = Inl (ValueError msg)"
            using cnt by (simp add: generate_multiple_passwords_def)
          from generate_loop_raises_only [OF this] obtain q where
            "generate_password src depth q r = Inl (ValueError msg)" ..
          then show False using valid [OF len ok, of src q msg] by simp
        qed
        then show ?thesis using ok long False by blast
      qed
    qed
  qed
  show ?thesis
    using one short [of src p] nosel [of src p] many small many_short many_nosel by blast
qed

theorem parameter_errors_witness:
  "generate_password zero_draws 990 0 \<lparr>pw_length = 3, use_uppercase = True, use_lowercase = True,
      use_digits = True, use_special = True\<rparr> =
     Inl (ValueError ''Password length must be at least 4 characters'') \<and>
   generate_password zero_draws 990 0 \<lparr>pw_length = 4, use_uppercase = False, use_lowercase = False,
      use_digits = False, use_special = False\<rparr> =
     Inl (ValueError ''At least one character type must be selected'') \<and>
   generate_multiple_passwords zero_draws 990 0 0 \<lparr>pw_length = 4, use_uppercase = True,
      use_lowercase = True, use_digits = True, use_special = True\<rparr> =
     Inl (ValueError ''Count must be at least 1'') \<and>
   generate_multiple_passwords zero_draws 990 0 1 \<lparr>pw_length = 3, use_uppercase = True,
      use_lowercase = True, use_digits = True, use_special = True\<rparr> =
     Inl (ValueError ''Password length must be at least 4 characters'') \<and>
   generate_multiple_passwords zero_draws 990 0 1 \<lparr>pw_length = 4, use_uppercase = False,
      use_lowercase = False, use_digits = False, use_special = False\<rparr> =
     Inl (ValueError ''At least one character type must be selected'') \<and>
   \<not> (\<exists>msg. generate_password zero_draws 990 0 \<lparr>pw_length = 4, use_uppercase = True,
      use_lowercase = True, use_digits = True, use_special = True\<rparr> = Inl (ValueError msg))"
  using
    parameter_errors [where src = zero_draws and depth = 990 and p = 0 and cnt = 1 and
      r = "\<lparr>pw_length = 3, use_uppercase = True, use_lowercase = True,
        use_digits = True, use_special = True\<rparr>"]
    parameter_errors [where src = zero_draws and depth = 990 and p = 0 and cnt = 1 and
      r = "\<lparr>pw_length = 4, use_uppercase = False, use_lowercase = False,
        use_digits = False, use_special = False\<rparr>"]
    parameter_errors [where src = zero_draws and depth = 990 and p = 0 and cnt = 0 and
      r = "\<lparr>pw_length = 4, use_uppercase = True, use_lowercase = True,
        use_digits = True, use_special = True\<rparr>"]
  by simp

subsection \<open>The length check comes first\<close>

text \<open>
  Claim C10. A call of \<^verbatim>\<open>generate_password\<close> with a length below 4 raises the error
  about the length whatever the class flags are, also when no class is selected; so the
  error about the class selection is seen only when the length is at least 4.
\<close>

theorem length_check_precedes_class_check:
  "(pw_length r < 4 \<longrightarrow>
      generate_password src depth p r =
        Inl (ValueError ''Password length must be at least 4 characters'')) \<and>
   (generate_password src depth p r =
        Inl (ValueError ''At least one character type must be selected'') \<longrightarrow>
      4 \<le> pw_length r)"
proof (intro conjI impI)
  assume "pw_length r < 4"
  then show "generate_password src depth p r =
      Inl (ValueError ''Password length must be at least 4 characters'')"
    by (subst generate_password_unfold) simp
next
  assume a: "generate_password src depth p r =
      Inl (ValueError ''At least one character type must be selected'')"
  show "4 \<le> pw_length r"
  proof (rule ccontr)
    assume "\<not> 4 \<le> pw_length r"
    then have "generate_password src depth p r =
        Inl (ValueError ''Password length must be at least 4 characters'')"
      by (subst generate_password_unfold) simp
    with a show False by simp
  qed
qed

theorem length_check_precedes_class_check_witness:
  "generate_password zero_draws 990 0 \<lparr>pw_length = 3, use_uppercase = False, use_lowercase = False,
      use_digits = False, use_special = False\<rparr> =
     Inl (ValueError ''Password length must be at least 4 characters'') \<and>
   generate_password zero_draws 990 0 \<lparr>pw_length = 4, use_uppercase = False, use_lowercase = False,
      use_digits = False, use_special = False\<rparr> =
     Inl (ValueError ''At least one character type must be selected'')"
proof
  show "generate_password zero_draws 990 0 \<lparr>pw_length = 3, use_uppercase = False,
      use_lowercase = False, use_digits = False, use_special = False\<rparr> =
     Inl (ValueError ''Password length must be at least 4 characters'')"
    using length_check_precedes_class_check [where src = zero_draws and depth = 990 and
        p = 0 and r = "\<lparr>pw_length = 3, use_uppercase = False, use_lowercase = False,
          use_digits = False, use_special = False\<rparr>"]
    by simp
  show "generate_password zero_draws 990 0 \<lparr>pw_length = 4, use_uppercase = False,
      use_lowercase = False, use_digits = False, use_special = False\<rparr> =
     Inl (ValueError ''At least one character type must be selected'')"
    by (subst generate_password_unfold) (simp add: pool_of_empty_iff)
qed

subsection \<open>The pattern check, case by case\<close>

lemma sequential_chars_iff:
  "sequential_chars password \<longleftrightarrow>
     (\<exists>i. i + 2 < length password \<and>
          (of_char (password ! (i + 1)) :: nat) = of_char (password ! i) + 1 \<and>
          (of_char (password ! (i + 2)) :: nat) = of_char (password ! i) + 2)"
  by (auto simp: sequential_chars_def list_ex_iff less_diff_conv)

lemma repeated_chars_iff:
  "repeated_chars password \<longleftrightarrow>
     (\<exists>i. i + 2 < length password \<and> dot_matches (password ! i) \<and>
          password ! (i + 1) = password ! i \<and> password ! (i + 2) = password ! i)"
proof (induction password rule: repeated_chars.induct)
  case (1 a b c rest)
  let ?Q = "\<lambda>xs i. i + 2 < length xs \<and> dot_matches (xs ! i) \<and>
          xs ! (i + 1) = xs ! i \<and> xs ! (i + 2) = xs ! i"
  have split: "(\<exists>i. ?Q (a # b # c # rest) i) \<longleftrightarrow>
      ?Q (a # b # c # rest) 0 \<or> (\<exists>i. ?Q (b # c # rest) i)"
  proof
    assume "\<exists>i. ?Q (a # b # c # rest) i"
    then obtain i where i: "?Q (a # b # c # rest) i" ..
    show "?Q (a # b # c # rest) 0 \<or> (\<exists>i. ?Q (b # c # rest) i)"
    proof (cases i)
      case 0
      then show ?thesis using i by simp
    next
      case (Suc j)
      then have "?Q (b # c # rest) j" using i by simp
      then show ?thesis by blast
    qed
  next
    assume "?Q (a # b # c # rest) 0 \<or> (\<exists>i. ?Q (b # c # rest) i)"
    then show "\<exists>i. ?Q (a # b # c # rest) i"
    proof
      assume "?Q (a # b # c # rest) 0"
      then show ?thesis by blast
    next
      assume "\<exists>i. ?Q (b # c # rest) i"
      then obtain j where "?Q (b # c # rest) j" ..
      then have "?Q (a # b # c # rest) (Suc j)" by simp
      then show ?thesis by blast
    qed
  qed
  show ?case
  proof (cases "dot_matches a \<and> b = a \<and> c = a")
    case True
    then have "?Q (a # b # c # rest) 0" by simp
    then have "\<exists>i. ?Q (a # b # c # rest) i" by blast
    moreover have "repeated_chars (a # b # c # rest)" using True by simp
    ultimately show ?thesis by blast
  next
    case False
    then have n0: "\<not> ?Q (a # b # c # rest) 0" by auto
    have r: "repeated_chars (a # b # c # rest) = repeated_chars (b # c # rest)"
      using False by auto
    have "(\<exists>i. ?Q (a # b # c # rest) i) \<longleftrightarrow> (\<exists>i. ?Q (b # c # rest) i)"
      using split n0 by blast
    then show ?thesis
      unfolding r using "1.IH" [OF False] by blast
  qed
qed simp_all

lemma str_in_iff: "str_in pattern s \<longleftrightarrow> (\<exists>u v. s = u @ pattern @ v)"
proof (induction s)
  case Nil
  then show ?case by auto
next
  case (Cons c cs)
  have pre: "take (length pattern) (c # cs) = pattern \<longleftrightarrow> (\<exists>v. c # cs = pattern @ v)"
  proof
    assume "take (length pattern) (c # cs) = pattern"
    then have "c # cs = pattern @ drop (length pattern) (c # cs)"
      by (metis append_take_drop_id)
    then show "\<exists>v. c # cs = pattern @ v" ..
  next
    assume "\<exists>v. c # cs = pattern @ v"
    then show "take (length pattern) (c # cs) = pattern" by auto
  qed
  have "(\<exists>u v. c # cs = u @ pattern @ v) \<longleftrightarrow>
        (\<exists>v. c # cs = pattern @ v) \<or> (\<exists>u v. cs = u @ pattern @ v)"
  proof
    assume "\<exists>u v. c # cs = u @ pattern @ v"
    then obtain u v where uv: "c # cs = u @ pattern @ v" by blast
    show "(\<exists>v. c # cs = pattern @ v) \<or> (\<exists>u v. cs = u @ pattern @ v)"
    proof (cases u)
      case Nil
      then show ?thesis using uv by auto
    next
      case (Cons d u')
      then have "cs = u' @ pattern @ v" using uv by simp
      then show ?thesis by blast
    qed
  next
    assume "(\<exists>v. c # cs = pattern @ v) \<or> (\<exists>u v. cs = u @ pattern @ v)"
    then show "\<exists>u v. c # cs = u @ pattern @ v"
    proof
      assume "\<exists>v. c # cs = pattern @ v"
      then obtain v where "c # cs = [] @ pattern @ v" by auto
      then show ?thesis by blast
    next
      assume "\<exists>u v. cs = u @ pattern @ v"
      then obtain u v where "cs = u @ pattern @ v" by blast
      then have "c # cs = (c # u) @ pattern @ v" by simp
      then show ?thesis by blast
    qed
  qed
  then show ?case using pre Cons.IH by simp
qed

text \<open>
  What the code decides, for every string: an ascending run of three codes, or a run of
  three equal symbols that the regular expression's dot matches, or a denylisted
  substring of the lowercase-folded string.
\<close>

lemma has_predictable_patterns_iff:
  "has_predictable_patterns password \<longleftrightarrow>
     (\<exists>i. i + 2 < length password \<and>
          (of_char (password ! (i + 1)) :: nat) = of_char (password ! i) + 1 \<and>
          (of_char (password ! (i + 2)) :: nat) = of_char (password ! i) + 2) \<or>
     (\<exists>i. i + 2 < length password \<and> password ! i \<noteq> CHR 0x0A \<and>
          password ! (i + 1) = password ! i \<and> password ! (i + 2) = password ! i) \<or>
     (\<exists>pattern \<in> {''123'', ''321'', ''abc'', ''cba'', ''qwe'', ''asd'', ''zxc''}.
        \<exists>u v. lower password = u @ pattern @ v)"
proof -
  have third: "list_ex (\<lambda>pattern. str_in pattern (lower password)) common_patterns \<longleftrightarrow>
     (\<exists>pattern \<in> {''123'', ''321'', ''abc'', ''cba'', ''qwe'', ''asd'', ''zxc''}.
        \<exists>u v. lower password = u @ pattern @ v)"
    unfolding list_ex_iff str_in_iff by (simp add: common_patterns_def)
  show ?thesis
    unfolding has_predictable_patterns_def third [symmetric]
    using sequential_chars_iff [of password] repeated_chars_iff [of password]
    by (auto simp: dot_matches_def)
qed

text \<open>
  Claim C4 says that the check is true exactly when one of its three conditions holds,
  the second being that some symbol occurs three or more times in a row. The code looks
  for such a run with the regular expression \<^verbatim>\<open>(.)\1{2,}\<close> and no DOTALL flag, whose dot
  does not match a line feed: on the string of three line feeds the second condition
  holds and the check is false.
\<close>

theorem line_feed_run_not_flagged:
  "has_predictable_patterns [CHR 0x0A, CHR 0x0A, CHR 0x0A] = False \<and>
   [CHR 0x0A, CHR 0x0A, CHR 0x0A] ! 0 = [CHR 0x0A, CHR 0x0A, CHR 0x0A] ! 1 \<and>
   [CHR 0x0A, CHR 0x0A, CHR 0x0A] ! 1 = [CHR 0x0A, CHR 0x0A, CHR 0x0A] ! 2"
  by code_simp

subsection \<open>Strings shorter than three symbols\<close>

text \<open>
  Claim C9. On every string of length at most 2 the pattern check is false: each of its
  three tests needs a window of three symbols.
\<close>

theorem short_strings_not_predictable:
  assumes "length password \<le> 2"
  shows "\<not> has_predictable_patterns password"
proof -
  have seq: "\<not> sequential_chars password"
    using assms by (simp add: sequential_chars_iff)
  have rep: "\<not> repeated_chars password"
    using assms by (simp add: repeated_chars_iff)
  have "\<not> str_in pattern (lower password)" if "length pattern = 3" for pattern
  proof
    assume "str_in pattern (lower password)"
    then obtain u v where "lower password = u @ pattern @ v"
      unfolding str_in_iff by blast
    then have "length (lower password) = length u + 3 + length v"
      using that by simp
    then show False using assms by (simp add: lower_def)
  qed
  then have "\<not> list_ex (\<lambda>pattern. str_in pattern (lower password)) common_patterns"
    by (simp add: common_patterns_def)
  then show ?thesis using seq rep by (simp add: has_predictable_patterns_def)
qed

theorem short_strings_not_predictable_witness:
  "length ''ab'' \<le> 2 \<and> \<not> has_predictable_patterns ''ab''"
  using short_strings_not_predictable [of "''ab''"] by simp

subsection \<open>The alphabets\<close>

lemma alphabets_distinct: "distinct (lowercase @ uppercase @ digits @ special_chars)"
  unfolding lowercase_def uppercase_def digits_def special_chars_def by code_simp

text \<open>
  Claim C8. The four alphabets of the generator are pairwise disjoint, so the pool that
  \<^verbatim>\<open>generate_password\<close> concatenates from the selected ones has no symbol twice.
\<close>

theorem alphabets_pairwise_disjoint:
  "set lowercase \<inter> set uppercase = {} \<and> set lowercase \<inter> set digits = {} \<and>
   set lowercase \<inter> set special_chars = {} \<and> set uppercase \<inter> set digits = {} \<and>
   set uppercase \<inter> set special_chars = {} \<and> set digits \<inter> set special_chars = {} \<and>
   distinct (fst (select_classes src p r))"
proof -
  have d: "distinct lowercase" "distinct uppercase" "distinct digits" "distinct special_chars"
    and lu: "set lowercase \<inter> set uppercase = {}"
    and ld: "set lowercase \<inter> set digits = {}"
    and ls: "set lowercase \<inter> set special_chars = {}"
    and ud: "set uppercase \<inter> set digits = {}"
    and us: "set uppercase \<inter> set special_chars = {}"
    and ds: "set digits \<inter> set special_chars = {}"
    using alphabets_distinct by (auto simp: distinct_append)
  have "distinct (pool_of r)"
    using d lu ld ls ud us ds by (auto simp: pool_of_def)
  then show ?thesis
    using lu ld ls ud us ds by (simp add: select_classes_pool)
qed

subsection \<open>The batch\<close>

lemma retry_pos_mono:
  assumes "4 \<le> pw_length r" and "pool_of r \<noteq> []"
  shows "p \<le> retry_pos src r p k"
proof (induction k arbitrary: p)
  case 0
  then show ?case by simp
next
  case (Suc k)
  have "p < snd (attempt src p r)" by (rule attempt_advances [OF assms])
  also have "\<dots> \<le> retry_pos src r (snd (attempt src p r)) k" by (rule Suc.IH)
  finally show ?case by simp
qed

lemma generate_password_advances:
  assumes "generate_password src depth p r = Inr (pw, p')"
  shows "p < p'"
proof -
  have len: "4 \<le> pw_length r"
  proof (rule ccontr)
    assume "\<not> 4 \<le> pw_length r"
    then have "generate_password src depth p r =
        Inl (ValueError ''Password length must be at least 4 characters'')"
      by (subst generate_password_unfold) simp
    with assms show False by simp
  qed
  have pool: "pool_of r \<noteq> []"
  proof
    assume "pool_of r = []"
    then have "generate_password src depth p r =
        Inl (ValueError ''At least one character type must be selected'')"
      using len by (subst generate_password_unfold) simp
    with assms show False by simp
  qed
  from generate_password_returned [OF len pool assms] obtain k where
    "(pw, p') = attempt src (retry_pos src r p k) r" by auto
  then have "p' = snd (attempt src (retry_pos src r p k) r)" by (metis snd_conv)
  then show ?thesis
    using attempt_advances [OF len pool, of "retry_pos src r p k" src]
      retry_pos_mono [OF len pool, of p src k] by simp
qed

lemma generate_loop_returns_iff:
  "generate_loop src depth r n p acc = Inr (passwords, p') \<longleftrightarrow>
     (\<exists>new qs. passwords = acc @ new \<and> length new = n \<and> length qs = Suc n \<and>
        qs ! 0 = p \<and> qs ! n = p' \<and>
        (\<forall>i<n. generate_password src depth (qs ! i) r = Inr (new ! i, qs ! Suc i)))"
proof (induction n arbitrary: p acc)
  case 0
  show ?case
  proof
    assume "generate_loop src depth r 0 p acc = Inr (passwords, p')"
    then have "passwords = acc @ [] \<and> length ([] :: string list) = 0 \<and>
        length [p] = Suc 0 \<and> [p] ! 0 = p \<and> [p] ! 0 = p'" by simp
    then show "\<exists>new qs. passwords = acc @ new \<and> length new = 0 \<and> length qs = Suc 0 \<and>
        qs ! 0 = p \<and> qs ! 0 = p' \<and>
        (\<forall>i<0. generate_password src depth (qs ! i) r = Inr (new ! i, qs ! Suc i))"
      by blast
  next
    assume "\<exists>new qs. passwords = acc @ new \<and> length new = 0 \<and> length qs = Suc 0 \<and>
        qs ! 0 = p \<and> qs ! 0 = p' \<and>
        (\<forall>i<0. generate_password src depth (qs ! i) r = Inr (new ! i, qs ! Suc i))"
    then show "generate_loop src depth r 0 p acc = Inr (passwords, p')" by auto
  qed
next
  case (Suc n)
  show ?case
  proof
    assume run: "generate_loop src depth r (Suc n) p acc = Inr (passwords, p')"
    then obtain pw q where first: "generate_password src depth p r = Inr (pw, q)"
      and rest: "generate_loop src depth r n q (acc @ [pw]) = Inr (passwords, p')"
      by (auto split: sum.splits prod.splits)
    from rest obtain new qs where
      IH: "passwords = (acc @ [pw]) @ new" "length new = n" "length qs = Suc n"
          "qs ! 0 = q" "qs ! n = p'"
          "\<forall>i<n. generate_password src depth (qs ! i) r = Inr (new ! i, qs ! Suc i)"
      unfolding Suc.IH by blast
    have "\<forall>i<Suc n. generate_password src depth ((p # qs) ! i) r =
            (Inr ((pw # new) ! i, (p # qs) ! Suc i))"
      using first IH(4,6) by (simp add: All_less_Suc2)
    moreover have "passwords = acc @ (pw # new)" using IH(1) by simp
    moreover have "length (pw # new) = Suc n" "length (p # qs) = Suc (Suc n)"
      "(p # qs) ! 0 = p" "(p # qs) ! Suc n = p'" using IH(2,3,5) by simp_all
    ultimately show "\<exists>new qs. passwords = acc @ new \<and> length new = Suc n \<and>
        length qs = Suc (Suc n) \<and> qs ! 0 = p \<and> qs ! Suc n = p' \<and>
        (\<forall>i<Suc n. generate_password src depth (qs ! i) r = Inr (new ! i, qs ! Suc i))"
      by blast
  next
    assume "\<exists>new qs. passwords = acc @ new \<and> length new = Suc n \<and>
        length qs = Suc (Suc n) \<and> qs ! 0 = p \<and> qs ! Suc n = p' \<and>
        (\<forall>i<Suc n. generate_password src depth (qs ! i) r = Inr (new ! i, qs ! Suc i))"
    then obtain new qs where
      h: "passwords = acc @ new" "length new = Suc n" "length qs = Suc (Suc n)"
         "qs ! 0 = p" "qs ! Suc n = p'"
         "\<forall>i<Suc n. generate_password src depth (qs ! i) r = Inr (new ! i, qs ! Suc i)"
      by blast
    from h(2) obtain pw new' where new: "new = pw # new'" by (cases new) auto
    from h(3) obtain q0 qs' where qs: "qs = q0 # qs'" by (cases qs) auto
    have q0: "q0 = p" using h(4) qs by simp
    have first: "generate_password src depth p r = Inr (pw, qs' ! 0)"
      using h(6) new qs q0 by (simp add: All_less_Suc2)
    have "\<forall>i<n. generate_password src depth (qs' ! i) r = Inr (new' ! i, qs' ! Suc i)"
      using h(6) new qs by (simp add: All_less_Suc2)
    moreover have "passwords = (acc @ [pw]) @ new'" "length new' = n" "length qs' = Suc n"
      "qs' ! n = p'" using h(1,2,3,5) new qs by simp_all
    ultimately have "generate_loop src depth r n (qs' ! 0) (acc @ [pw]) = Inr (passwords, p')"
      unfolding Suc.IH by blast
    then show "generate_loop src depth r (Suc n) p acc = Inr (passwords, p')"
      using first by simp
  qed
qed

lemma generate_loop_fails:
  assumes "k < n" and "length qs = Suc k" and "length pws = k" and "qs ! 0 = p"
    and "\<forall>i<k. generate_password src depth (qs ! i) r = Inr (pws ! i, qs ! Suc i)"
    and "generate_password src depth (qs ! k) r = Inl e"
  shows "generate_loop src depth r n p acc = Inl e"
  using assms
proof (induction k arbitrary: n p acc qs pws)
  case 0
  then obtain m where "n = Suc m" by (cases n) auto
  then show ?case using 0 by simp
next
  case (Suc k)
  from Suc.prems(1) obtain m where n: "n = Suc m" and km: "k < m" by (cases n) auto
  from Suc.prems(2) obtain q0 qs' where qs: "qs = q0 # qs'" by (cases qs) auto
  from Suc.prems(3) obtain pw pws' where pws: "pws = pw # pws'" by (cases pws) auto
  have q0: "q0 = p" using Suc.prems(4) qs by simp
  have first: "generate_password src depth p r = Inr (pw, qs' ! 0)"
    using Suc.prems(5) qs pws q0 by (simp add: All_less_Suc2)
  have rest: "\<forall>i<k. generate_password src depth (qs' ! i) r = Inr (pws' ! i, qs' ! Suc i)"
    using Suc.prems(5) qs pws by (simp add: All_less_Suc2)
  have len: "length qs' = Suc k" "length pws' = k" using Suc.prems(2,3) qs pws by simp_all
  have last: "generate_password src depth (qs' ! k) r = Inl e"
    using Suc.prems(6) qs by simp
  from Suc.IH [OF km len refl rest last, where acc = "acc @ [pw]"]
  show ?case using first n by simp
qed

text \<open>
  Claim C7. For every count of at least 1, \<^verbatim>\<open>generate_multiple_passwords\<close> returns a
  list exactly when that many calls of \<^verbatim>\<open>generate_password\<close> return one after the
  other, each reading the draws from where the call before stopped and strictly further
  on; the list then holds exactly their passwords, in order, so for a valid request it
  has exactly count entries. When one of the calls raises, after any number of calls that
  did return, the batch raises the same error: no shorter list comes back.
\<close>

theorem generate_multiple_passwords_batch:
  assumes "1 \<le> cnt"
  shows "(generate_multiple_passwords src depth p cnt r = Inr (passwords, p') \<longleftrightarrow>
           (\<exists>qs. length passwords = nat cnt \<and> length qs = Suc (nat cnt) \<and>
              qs ! 0 = p \<and> qs ! nat cnt = p' \<and>
              (\<forall>i<nat cnt. qs ! i < qs ! Suc i \<and>
                 generate_password src depth (qs ! i) r = Inr (passwords ! i, qs ! Suc i)))) \<and>
         (\<forall>k qs pws. k < nat cnt \<and> length qs = Suc k \<and> length pws = k \<and> qs ! 0 = p \<and>
              (\<forall>i<k. generate_password src depth (qs ! i) r = Inr (pws ! i, qs ! Suc i)) \<longrightarrow>
            (\<forall>e. generate_password src depth (qs ! k) r = Inl e \<longrightarrow>
               generate_multiple_passwords src depth p cnt r = Inl e))"
proof (intro conjI allI impI)
  have gm: "generate_multiple_passwords src depth p cnt r = generate_loop src depth r (nat cnt) p []"
    using assms by (simp add: generate_multiple_passwords_def)
  show "generate_multiple_passwords src depth p cnt r = Inr (passwords, p') \<longleftrightarrow>
           (\<exists>qs. length passwords = nat cnt \<and> length qs = Suc (nat cnt) \<and>
              qs ! 0 = p \<and> qs ! nat cnt = p' \<and>
              (\<forall>i<nat cnt. qs ! i < qs ! Suc i \<and>
                 generate_password src depth (qs ! i) r = Inr (passwords ! i, qs ! Suc i)))"
    unfolding gm generate_loop_returns_iff
    using generate_password_advances by (auto; blast)
  fix k qs pws
  assume h: "k < nat cnt \<and> length qs = Suc k \<and> length pws = k \<and> qs ! 0 = p \<and>
      (\<forall>i<k. generate_password src depth (qs ! i) r = Inr (pws ! i, qs ! Suc i))"
  then have h1: "k < nat cnt" and h2: "length qs = Suc k" and h3: "length pws = k"
    and h4: "qs ! 0 = p"
    and h5: "\<forall>i<k. generate_password src depth (qs ! i) r = Inr (pws ! i, qs ! Suc i)"
    by simp_all
  fix e
  assume "generate_password src depth (qs ! k) r = Inl e"
  from generate_loop_fails [OF h1 h2 h3 h4 h5 this, where acc = "[]"]
  show "generate_multiple_passwords src depth p cnt r = Inl e"
    unfolding gm .
qed

lemma generate_zero_all_classes_again:
  "generate_password zero_draws (Suc depth) 7 \<lparr>pw_length = 4, use_uppercase = True,
      use_lowercase = True, use_digits = True, use_special = True\<rparr> = Inr (''A0!a'', 14)"
proof -
  have "attempt zero_draws 7 \<lparr>pw_length = 4, use_uppercase = True, use_lowercase = True,
      use_digits = True, use_special = True\<rparr> = (''A0!a'', 14)"
    by code_simp
  then show ?thesis
    by (subst generate_password_unfold) (simp add: pool_of_empty_iff pattern_A0_bang_a)
qed

theorem generate_multiple_passwords_batch_witness:
  "(1 :: int) \<le> 2 \<and>
   generate_multiple_passwords zero_draws 990 0 2 \<lparr>pw_length = 4, use_uppercase = True,
      use_lowercase = True, use_digits = True, use_special = True\<rparr> =
     (Inr ([''A0!a'', ''A0!a''], 14))"
proof -
  let ?r = "\<lparr>pw_length = 4, use_uppercase = True, use_lowercase = True,
      use_digits = True, use_special = True\<rparr>"
  have chain: "\<forall>i<nat 2. [0, 7, 14] ! i < [0, 7, 14 :: nat] ! Suc i \<and>
      generate_password zero_draws 990 ([0, 7, 14] ! i) ?r =
        (Inr ([''A0!a'', ''A0!a''] ! i, [0, 7, 14] ! Suc i))"
    using generate_zero_all_classes [of 989] generate_zero_all_classes_again [of 989]
    by (simp add: All_less_Suc2 numeral_2_eq_2)
  have "\<exists>qs. length [''A0!a'', ''A0!a''] = nat 2 \<and> length qs = Suc (nat 2) \<and>
      qs ! 0 = 0 \<and> qs ! nat 2 = 14 \<and>
      (\<forall>i<nat 2. qs ! i < qs ! Suc i \<and>
         generate_password zero_draws 990 (qs ! i) ?r =
           (Inr ([''A0!a'', ''A0!a''] ! i, qs ! Suc i)))"
    by (rule exI [of _ "[0, 7, 14]"]) (use chain in simp)
  then show ?thesis
    using generate_multiple_passwords_batch [where cnt = 2 and src = zero_draws and
        depth = 990 and p = 0 and r = ?r and passwords = "[''A0!a'', ''A0!a'']" and p' = 14]
    by simp
qed

end
